theory Spec2Isabelle
  imports Main "HOL-Library.Product_Lexorder"
begin

section \<open>Python values used by the hooks\<close>

text \<open>
  The two hook scripts are \<^verbatim>\<open>check_for_markers.py\<close> (pattern scanner with line
  numbers) and \<^verbatim>\<open>check_for_xxx.py\<close> (fixed marker, raw diff text).

  A Python \<^verbatim>\<open>str\<close> is modelled as a \<open>string\<close> whose characters are the code points
  0..255; a Python \<^verbatim>\<open>bytes\<close> value is a \<open>string\<close> whose characters are the bytes.
  Code points above 255 are outside the model. Every exception the scripts can raise is
  a value of \<open>error\<close>; a function that can raise returns \<open>error + 'a\<close>.
\<close>

datatype error = ValueError | TypeError | ReError

subsection \<open>\<^verbatim>\<open>str\<close> methods\<close>

definition startswith :: "string \<Rightarrow> string \<Rightarrow> bool" where
  "startswith s p = (take (length p) s = p)"

text \<open>\<^verbatim>\<open>s.split(sep)\<close> for a separator of one character: the pieces between the
  separators, empty pieces kept, so the result is never empty.\<close>

fun str_split :: "char \<Rightarrow> string \<Rightarrow> string list" where
  "str_split sep [] = [[]]"
| "str_split sep (c # cs) =
     (if c = sep then [] # str_split sep cs
      else (c # hd (str_split sep cs)) # tl (str_split sep cs))"

text \<open>The line boundaries of \<^verbatim>\<open>str.splitlines\<close> below code point 256: LF, CR (and the
  pair CR LF), VT, FF, FS, GS, RS and NEL.\<close>

definition is_linebreak :: "char \<Rightarrow> bool" where
  "is_linebreak c = (of_char c \<in> {10, 11, 12, 13, 28, 29, 30, 133 :: nat})"

fun splitlines_from :: "string \<Rightarrow> string \<Rightarrow> string list" where
  "splitlines_from cur [] = (if cur = [] then [] else [rev cur])"
| "splitlines_from cur [c] = (if is_linebreak c then [rev cur] else [rev (c # cur)])"
| "splitlines_from cur (c # d # cs) =
     (if c = CHR 0x0D \<and> d = CHR 0x0A then rev cur # splitlines_from [] cs
      else if is_linebreak c then rev cur # splitlines_from [] (d # cs)
      else splitlines_from (c # cur) (d # cs))"

definition splitlines :: "string \<Rightarrow> string list" where
  "splitlines s = splitlines_from [] s"

text \<open>\<^verbatim>\<open>s.strip()\<close> drops the white space at both ends: the code points below 256 for
  which \<^verbatim>\<open>str.isspace\<close> holds.\<close>

definition isspace :: "char \<Rightarrow> bool" where
  "isspace c = (of_char c \<in> {9, 10, 11, 12, 13, 28, 29, 30, 31, 32, 133, 160 :: nat})"

definition strip_chars :: "(char \<Rightarrow> bool) \<Rightarrow> string \<Rightarrow> string" where
  "strip_chars sp s = rev (dropWhile sp (rev (dropWhile sp s)))"

definition strip :: "string \<Rightarrow> string" where
  "strip s = strip_chars isspace s"

subsection \<open>\<^verbatim>\<open>int(s)\<close>, \<^verbatim>\<open>str(n)\<close> and \<^verbatim>\<open>repr(s)\<close>\<close>

definition isdigit :: "char \<Rightarrow> bool" where
  "isdigit c = (48 \<le> (of_char c :: nat) \<and> (of_char c :: nat) \<le> 57)"

definition digit_val :: "char \<Rightarrow> nat" where
  "digit_val c = of_char c - 48"

text \<open>The digits of a decimal literal after its first digit: digits, with single
  underscores allowed between two digits.\<close>

fun digits_from :: "nat \<Rightarrow> string \<Rightarrow> nat option" where
  "digits_from n [] = Some n"
| "digits_from n [c] = (if isdigit c then Some (10 * n + digit_val c) else None)"
| "digits_from n (c # d # cs) =
     (if isdigit c then digits_from (10 * n + digit_val c) (d # cs)
      else if c = CHR ''_'' \<and> isdigit d then digits_from (10 * n + digit_val d) cs
      else None)"

definition parse_digits :: "string \<Rightarrow> nat option" where
  "parse_digits s =
     (case s of [] \<Rightarrow> None
      | c # cs \<Rightarrow> if isdigit c then digits_from (digit_val c) cs else None)"

text \<open>\<^verbatim>\<open>int(s)\<close> in base 10: surrounding white space is dropped (for \<^verbatim>\<open>int\<close> the
  separators FS, GS, RS and US are not white space), one sign is allowed, anything else
  raises ValueError.\<close>

definition int_isspace :: "char \<Rightarrow> bool" where
  "int_isspace c = (of_char c \<in> {9, 10, 11, 12, 13, 32, 133, 160 :: nat})"

definition py_int :: "string \<Rightarrow> error + int" where
  "py_int s =
     (let t = strip_chars int_isspace s;
          neg = (t \<noteq> [] \<and> hd t = CHR ''-'');
          ds = (if t \<noteq> [] \<and> (hd t = CHR ''+'' \<or> hd t = CHR ''-'') then tl t else t)
      in case parse_digits ds of
           None \<Rightarrow> Inl ValueError
         | Some n \<Rightarrow> Inr (if neg then - int n else int n))"

definition digit_char :: "nat \<Rightarrow> char" where
  "digit_char d = ''0123456789'' ! d"

fun str_nat :: "nat \<Rightarrow> string" where
  "str_nat n = (if n < 10 then [digit_char n] else str_nat (n div 10) @ [digit_char (n mod 10)])"

definition py_str :: "int \<Rightarrow> string" where
  "py_str i = (if i < 0 then CHR ''-'' # str_nat (nat (- i)) else str_nat (nat i))"

definition hex_char :: "nat \<Rightarrow> char" where
  "hex_char d = ''0123456789abcdef'' ! d"

text \<open>The code points below 256 that \<^verbatim>\<open>repr\<close> writes as they are.\<close>

definition isprintable :: "char \<Rightarrow> bool" where
  "isprintable c =
     (let n = (of_char c :: nat) in (32 \<le> n \<and> n < 127) \<or> (161 \<le> n \<and> n \<noteq> 173))"

definition repr_char :: "char \<Rightarrow> char \<Rightarrow> string" where
  "repr_char quote c =
     (if c = quote \<or> c = CHR 0x5C then [CHR 0x5C, c]
      else if c = CHR 0x09 then [CHR 0x5C, CHR ''t'']
      else if c = CHR 0x0A then [CHR 0x5C, CHR ''n'']
      else if c = CHR 0x0D then [CHR 0x5C, CHR ''r'']
      else if isprintable c then [c]
      else [CHR 0x5C, CHR ''x'', hex_char (of_char c div 16), hex_char (of_char c mod 16)])"

text \<open>\<^verbatim>\<open>repr(s)\<close>: single quotes, unless the text holds a single quote and no double
  quote; the quote and the backslash are escaped.\<close>

definition py_repr :: "string \<Rightarrow> string" where
  "py_repr s =
     (let quote = (if CHR 0x27 \<in> set s \<and> CHR 0x22 \<notin> set s then CHR 0x22 else CHR 0x27)
      in [quote] @ concat (map (repr_char quote) s) @ [quote])"

section \<open>The standard library's \<^verbatim>\<open>difflib.unified_diff\<close>\<close>

text \<open>
  \<^verbatim>\<open>collect_errors\<close> calls \<^verbatim>\<open>unified_diff(old, new, lineterm="", n=0)\<close>. The model
  follows CPython's \<^verbatim>\<open>difflib.SequenceMatcher(None, a, b)\<close>: no junk predicate (so the
  set of junk elements is empty and the two loops that extend a match over junk never
  run), and the automatic heuristic that ignores popular elements of sequences of 200
  elements or more.
\<close>

definition popular :: "'a list \<Rightarrow> 'a \<Rightarrow> bool" where
  "popular b x = (200 \<le> length b \<and> length b div 100 + 1 < count_list b x)"

text \<open>\<^verbatim>\<open>b2j.get(x, [])\<close>: the indices of \<open>x\<close> in \<open>b\<close>, ascending; none for a popular
  element.\<close>

definition b2j :: "'a list \<Rightarrow> 'a \<Rightarrow> nat list" where
  "b2j b x = (if popular b x then [] else filter (\<lambda>j. b ! j = x) [0..<length b])"

text \<open>\<^verbatim>\<open>j2len.get(j-1, 0)\<close>; the key \<open>-1\<close> is never in the dictionary.\<close>

definition j2lenget :: "(nat \<rightharpoonup> nat) \<Rightarrow> nat \<Rightarrow> nat" where
  "j2lenget j2len j = (if j = 0 then 0 else case j2len (j - 1) of None \<Rightarrow> 0 | Some k \<Rightarrow> k)"

text \<open>The inner loop of \<^verbatim>\<open>find_longest_match\<close> over the indices \<open>j\<close> of \<open>a[i]\<close> in
  \<open>b\<close>; the state is \<open>(newj2len, besti, bestj, bestsize)\<close>.\<close>

fun flm_inner ::
  "nat \<Rightarrow> nat \<Rightarrow> nat \<Rightarrow> (nat \<rightharpoonup> nat) \<Rightarrow> nat list \<Rightarrow>
   (nat \<rightharpoonup> nat) \<times> nat \<times> nat \<times> nat \<Rightarrow> (nat \<rightharpoonup> nat) \<times> nat \<times> nat \<times> nat" where
  "flm_inner i blo bhi j2len [] st = st"
| "flm_inner i blo bhi j2len (j # js) (newj2len, besti, bestj, bestsize) =
     (if j < blo then flm_inner i blo bhi j2len js (newj2len, besti, bestj, bestsize)
      else if bhi \<le> j then (newj2len, besti, bestj, bestsize)
      else
        let k = j2lenget j2len j + 1 in
        flm_inner i blo bhi j2len js
          (if bestsize < k then (newj2len(j \<mapsto> k), i + 1 - k, j + 1 - k, k)
           else (newj2len(j \<mapsto> k), besti, bestj, bestsize)))"

text \<open>The outer loop over \<open>i\<close> in \<open>range(alo, ahi)\<close>; the state is
  \<open>(j2len, besti, bestj, bestsize)\<close>.\<close>

fun flm_outer ::
  "'a list \<Rightarrow> 'a list \<Rightarrow> nat \<Rightarrow> nat \<Rightarrow> nat list \<Rightarrow>
   (nat \<rightharpoonup> nat) \<times> nat \<times> nat \<times> nat \<Rightarrow> nat \<times> nat \<times> nat" where
  "flm_outer a b blo bhi [] (j2len, best) = best"
| "flm_outer a b blo bhi (i # is) (j2len, best) =
     (case flm_inner i blo bhi j2len (b2j b (a ! i)) (Map.empty, best) of
        (newj2len, best') \<Rightarrow> flm_outer a b blo bhi is (newj2len, best'))"

text \<open>The two \<^verbatim>\<open>while\<close> loops that extend the best match by equal elements on each
  end.\<close>

function extend_left ::
  "'a list \<Rightarrow> 'a list \<Rightarrow> nat \<Rightarrow> nat \<Rightarrow> nat \<times> nat \<times> nat \<Rightarrow> nat \<times> nat \<times> nat" where
  "extend_left a b alo blo (besti, bestj, bestsize) =
     (if alo < besti \<and> blo < bestj \<and> a ! (besti - 1) = b ! (bestj - 1)
      then extend_left a b alo blo (besti - 1, bestj - 1, bestsize + 1)
      else (besti, bestj, bestsize))"
  by pat_completeness auto
termination
  by (relation "measure (\<lambda>(a, b, alo, blo, besti, bestj, bestsize). besti)") auto

function extend_right ::
  "'a list \<Rightarrow> 'a list \<Rightarrow> nat \<Rightarrow> nat \<Rightarrow> nat \<times> nat \<times> nat \<Rightarrow> nat \<times> nat \<times> nat" where
  "extend_right a b ahi bhi (besti, bestj, bestsize) =
     (if besti + bestsize < ahi \<and> bestj + bestsize < bhi
         \<and> a ! (besti + bestsize) = b ! (bestj + bestsize)
      then extend_right a b ahi bhi (besti, bestj, bestsize + 1)
      else (besti, bestj, bestsize))"
  by pat_completeness auto
termination
  by (relation "measure (\<lambda>(a, b, ahi, bhi, besti, bestj, bestsize). ahi - (besti + bestsize))")
     auto

definition find_longest_match ::
  "'a list \<Rightarrow> 'a list \<Rightarrow> nat \<Rightarrow> nat \<Rightarrow> nat \<Rightarrow> nat \<Rightarrow> nat \<times> nat \<times> nat" where
  "find_longest_match a b alo ahi blo bhi =
     extend_right a b ahi bhi
       (extend_left a b alo blo
          (flm_outer a b blo bhi [alo..<ahi] (Map.empty, alo, blo, 0)))"

text \<open>The match found lies inside the window searched; the recursion of
  \<^verbatim>\<open>get_matching_blocks\<close> terminates because of it.\<close>

definition best_ok :: "nat \<Rightarrow> nat \<Rightarrow> nat \<Rightarrow> nat \<Rightarrow> bool" where
  "best_ok alo ahi bi bs = (alo \<le> bi \<and> ((bs = 0 \<and> bi = alo) \<or> bi + bs \<le> ahi))"

lemma flm_inner_bounds:
  assumes "alo \<le> i" "i < ahi"
    and "\<forall>j k. j2len j = Some k \<longrightarrow> k \<le> i - alo"
    and "best_ok alo ahi bi bs"
    and "flm_inner i blo bhi j2len js (m, bi, bj, bs) = (m', bi', bj', bs')"
    and "\<forall>j k. m j = Some k \<longrightarrow> k \<le> Suc i - alo"
  shows "best_ok alo ahi bi' bs' \<and> (\<forall>j k. m' j = Some k \<longrightarrow> k \<le> Suc i - alo)"
  using assms
proof (induction js arbitrary: m bi bj bs)
  case Nil
  then show ?case by simp
next
  case (Cons j js)
  have "j2lenget j2len j \<le> i - alo"
    using Cons.prems(3) by (cases "j2len (j - 1)") (auto simp: j2lenget_def)
  then have k: "j2lenget j2len j + 1 \<le> Suc i - alo"
    using Cons.prems(1) by arith
  show ?case
  proof (cases "j < blo")
    case True
    with Cons show ?thesis by simp
  next
    case nlo: False
    show ?thesis
    proof (cases "bhi \<le> j")
      case True
      with nlo Cons.prems show ?thesis by simp
    next
      case False
      let ?k = "j2lenget j2len j + 1"
      have m: "\<forall>ja ka. (m(j \<mapsto> ?k)) ja = Some ka \<longrightarrow> ka \<le> Suc i - alo"
        using k Cons.prems(6) by auto
      show ?thesis
      proof (cases "bs < ?k")
        case True
        have "flm_inner i blo bhi j2len js (m(j \<mapsto> ?k), i + 1 - ?k, j + 1 - ?k, ?k)
              = (m', bi', bj', bs')"
          using Cons.prems(5) nlo False True by (simp add: Let_def)
        moreover have "best_ok alo ahi (i + 1 - ?k) ?k"
          using k Cons.prems(1,2) unfolding best_ok_def by arith
        ultimately show ?thesis
          using Cons.IH[OF Cons.prems(1,2,3)] m by blast
      next
        case nb: False
        have "flm_inner i blo bhi j2len js (m(j \<mapsto> ?k), bi, bj, bs) = (m', bi', bj', bs')"
          using Cons.prems(5) nlo False nb by (simp add: Let_def)
        then show ?thesis
          using Cons.IH[OF Cons.prems(1,2,3,4)] m by blast
      qed
    qed
  qed
qed

lemma flm_outer_bounds:
  assumes "is = [i..<ahi]" "alo \<le> i"
    and "\<forall>j k. j2len j = Some k \<longrightarrow> k \<le> i - alo"
    and "best_ok alo ahi bi bs"
    and "flm_outer a b blo bhi is (j2len, bi, bj, bs) = (bi', bj', bs')"
  shows "best_ok alo ahi bi' bs'"
  using assms
proof (induction "is" arbitrary: i j2len bi bj bs)
  case Nil
  then show ?case by simp
next
  case (Cons x xs)
  from Cons.prems(1)[symmetric] have lt: "i < ahi" and x: "x = i" and xs: "xs = [Suc i..<ahi]"
    by (auto simp: upt_eq_Cons_conv)
  obtain m' ci cj cs where inner:
    "flm_inner i blo bhi j2len (b2j b (a ! i)) (Map.empty, bi, bj, bs) = (m', ci, cj, cs)"
    by (metis prod_cases4)
  have r: "best_ok alo ahi ci cs \<and> (\<forall>j k. m' j = Some k \<longrightarrow> k \<le> Suc i - alo)"
    using flm_inner_bounds[OF Cons.prems(2) lt Cons.prems(3,4) inner] by simp
  have "flm_outer a b blo bhi xs (m', ci, cj, cs) = (bi', bj', bs')"
    using Cons.prems(5) inner x by simp
  then show ?case
    using Cons.IH[OF xs, of m' ci cs cj] r Cons.prems(2) by auto
qed

lemma extend_left_bounds:
  "extend_left a b alo blo (bi, bj, bs) = (bi', bj', bs') \<Longrightarrow> best_ok alo ahi bi bs \<Longrightarrow>
   best_ok alo ahi bi' bs'"
proof (induction a b alo blo "(bi, bj, bs)" arbitrary: bi bj bs rule: extend_left.induct)
  case (1 a b alo blo besti bestj bestsize)
  show ?case
  proof (cases "alo < besti \<and> blo < bestj \<and> a ! (besti - 1) = b ! (bestj - 1)")
    case True
    then have "extend_left a b alo blo (besti - 1, bestj - 1, bestsize + 1) = (bi', bj', bs')"
      using "1.prems"(1) by simp
    moreover have "best_ok alo ahi (besti - 1) (bestsize + 1)"
      using True "1.prems"(2) unfolding best_ok_def by arith
    ultimately show ?thesis using "1.hyps"[OF True] by blast
  next
    case False
    then show ?thesis using "1.prems" by auto
  qed
qed

lemma extend_right_bounds:
  "extend_right a b ahi bhi (bi, bj, bs) = (bi', bj', bs') \<Longrightarrow> best_ok alo ahi bi bs \<Longrightarrow>
   best_ok alo ahi bi' bs'"
proof (induction a b ahi bhi "(bi, bj, bs)" arbitrary: bi bj bs rule: extend_right.induct)
  case (1 a b ahi bhi besti bestj bestsize)
  show ?case
  proof (cases "besti + bestsize < ahi \<and> bestj + bestsize < bhi
                \<and> a ! (besti + bestsize) = b ! (bestj + bestsize)")
    case True
    then have "extend_right a b ahi bhi (besti, bestj, bestsize + 1) = (bi', bj', bs')"
      using "1.prems"(1) by simp
    moreover have "best_ok alo ahi besti (bestsize + 1)"
      using True "1.prems"(2) unfolding best_ok_def by arith
    ultimately show ?thesis using "1.hyps"[OF True] by blast
  next
    case False
    then show ?thesis using "1.prems" by auto
  qed
qed

lemma find_longest_match_bounds:
  assumes "find_longest_match a b alo ahi blo bhi = (i, j, k)"
  shows "alo \<le> i \<and> (k = 0 \<or> i + k \<le> ahi)"
proof -
  obtain i1 j1 k1 where
    o: "flm_outer a b blo bhi [alo..<ahi] (Map.empty, alo, blo, 0) = (i1, j1, k1)"
    by (metis prod_cases3)
  obtain i2 j2 k2 where l: "extend_left a b alo blo (i1, j1, k1) = (i2, j2, k2)"
    by (metis prod_cases3)
  have r: "extend_right a b ahi bhi (i2, j2, k2) = (i, j, k)"
    using assms o l by (simp add: find_longest_match_def)
  have "best_ok alo ahi i1 k1"
    using flm_outer_bounds[OF refl _ _ _ o, of alo] by (simp add: best_ok_def)
  then have "best_ok alo ahi i2 k2"
    using extend_left_bounds[OF l] by simp
  then have "best_ok alo ahi i k"
    using extend_right_bounds[OF r] by simp
  then show ?thesis by (auto simp: best_ok_def)
qed

text \<open>\<^verbatim>\<open>get_matching_blocks\<close>: the work list \<^verbatim>\<open>queue\<close> is a stack, its top (the element
  \<^verbatim>\<open>queue.pop()\<close> takes) is the head of the list.\<close>

function matching_loop ::
  "'a list \<Rightarrow> 'a list \<Rightarrow> (nat \<times> nat \<times> nat \<times> nat) list \<Rightarrow> (nat \<times> nat \<times> nat) list \<Rightarrow>
   (nat \<times> nat \<times> nat) list" where
  "matching_loop a b [] blocks = blocks"
| "matching_loop a b ((alo, ahi, blo, bhi) # queue) blocks =
     (case find_longest_match a b alo ahi blo bhi of
        (i, j, k) \<Rightarrow>
          if k \<noteq> 0 then
            matching_loop a b
              ((if i + k < ahi \<and> j + k < bhi then [(i + k, ahi, j + k, bhi)] else [])
               @ (if alo < i \<and> blo < j then [(alo, i, blo, j)] else []) @ queue)
              (blocks @ [(i, j, k)])
          else matching_loop a b queue blocks)"
  by pat_completeness auto
termination
proof (relation "measure (\<lambda>(a, b, queue, blocks).
         sum_list (map (\<lambda>(alo, ahi, blo, bhi). 2 * (ahi - alo) + 1) queue))", goal_cases)
  case 1
  show ?case by simp
next
  case 2
  then show ?case by (auto dest!: sym[THEN find_longest_match_bounds])
next
  case 3
  then show ?case by simp
qed

text \<open>The second loop of \<^verbatim>\<open>get_matching_blocks\<close> joins adjacent blocks; the state is
  \<open>(i1, j1, k1)\<close>.\<close>

fun non_adjacent_loop :: "nat \<times> nat \<times> nat \<Rightarrow> (nat \<times> nat \<times> nat) list \<Rightarrow> (nat \<times> nat \<times> nat) list" where
  "non_adjacent_loop (i1, j1, k1) [] = (if k1 \<noteq> 0 then [(i1, j1, k1)] else [])"
| "non_adjacent_loop (i1, j1, k1) ((i2, j2, k2) # blocks) =
     (if i1 + k1 = i2 \<and> j1 + k1 = j2 then non_adjacent_loop (i1, j1, k1 + k2) blocks
      else (if k1 \<noteq> 0 then [(i1, j1, k1)] else []) @ non_adjacent_loop (i2, j2, k2) blocks)"

definition get_matching_blocks :: "'a list \<Rightarrow> 'a list \<Rightarrow> (nat \<times> nat \<times> nat) list" where
  "get_matching_blocks a b =
     non_adjacent_loop (0, 0, 0) (sort (matching_loop a b [(0, length a, 0, length b)] []))
     @ [(length a, length b, 0)]"

datatype tag = Replace | Delete | Insert | Equal

type_synonym opcode = "tag \<times> nat \<times> nat \<times> nat \<times> nat"

text \<open>The loop of \<^verbatim>\<open>get_opcodes\<close> over the matching blocks; the state is \<open>(i, j)\<close>.\<close>

fun opcodes_loop :: "nat \<Rightarrow> nat \<Rightarrow> (nat \<times> nat \<times> nat) list \<Rightarrow> opcode list" where
  "opcodes_loop i j [] = []"
| "opcodes_loop i j ((ai, bj, sz) # blocks) =
     (if i < ai \<and> j < bj then [(Replace, i, ai, j, bj)]
      else if i < ai then [(Delete, i, ai, j, bj)]
      else if j < bj then [(Insert, i, ai, j, bj)]
      else [])
     @ (if sz \<noteq> 0 then [(Equal, ai, ai + sz, bj, bj + sz)] else [])
     @ opcodes_loop (ai + sz) (bj + sz) blocks"

definition get_opcodes :: "'a list \<Rightarrow> 'a list \<Rightarrow> opcode list" where
  "get_opcodes a b = opcodes_loop 0 0 (get_matching_blocks a b)"

text \<open>\<^verbatim>\<open>get_grouped_opcodes(n)\<close>: the leading and the trailing equal range are cut to
  \<open>n\<close> lines of context, and a group ends at every equal range longer than \<open>2n\<close>.\<close>

definition fix_first :: "nat \<Rightarrow> opcode list \<Rightarrow> opcode list" where
  "fix_first n codes =
     (case codes of
        (Equal, i1, i2, j1, j2) # rest \<Rightarrow> (Equal, max i1 (i2 - n), i2, max j1 (j2 - n), j2) # rest
      | _ \<Rightarrow> codes)"

definition fix_last :: "nat \<Rightarrow> opcode list \<Rightarrow> opcode list" where
  "fix_last n codes =
     (if codes \<noteq> [] \<and> fst (last codes) = Equal then
        (case last codes of
           (t, i1, i2, j1, j2) \<Rightarrow> butlast codes @ [(t, i1, min i2 (i1 + n), j1, min j2 (j1 + n))])
      else codes)"

fun group_loop :: "nat \<Rightarrow> opcode list \<Rightarrow> opcode list \<Rightarrow> opcode list list" where
  "group_loop n grp [] =
     (if grp \<noteq> [] \<and> \<not> (length grp = 1 \<and> fst (hd grp) = Equal) then [grp] else [])"
| "group_loop n grp ((t, i1, i2, j1, j2) # codes) =
     (if t = Equal \<and> n + n < i2 - i1 then
        (grp @ [(t, i1, min i2 (i1 + n), j1, min j2 (j1 + n))])
        # group_loop n [(t, max i1 (i2 - n), i2, max j1 (j2 - n), j2)] codes
      else group_loop n (grp @ [(t, i1, i2, j1, j2)]) codes)"

definition get_grouped_opcodes :: "'a list \<Rightarrow> 'a list \<Rightarrow> nat \<Rightarrow> opcode list list" where
  "get_grouped_opcodes a b n =
     (let codes = get_opcodes a b;
          codes = (if codes = [] then [(Equal, 0, 1, 0, 1)] else codes)
      in group_loop n [] (fix_last n (fix_first n codes)))"

text \<open>\<^verbatim>\<open>_format_range_unified(start, stop)\<close>.\<close>

definition format_range_unified :: "nat \<Rightarrow> nat \<Rightarrow> string" where
  "format_range_unified start stop =
     (let beginning = start + 1; len = stop - start in
      if len = 1 then py_str (int beginning)
      else py_str (int (if len = 0 then beginning - 1 else beginning)) @ '','' @ py_str (int len))"

text \<open>The lines one opcode contributes; \<open>drop i (take j xs)\<close> is the slice \<^verbatim>\<open>xs[i:j]\<close>.\<close>

fun opcode_lines :: "string list \<Rightarrow> string list \<Rightarrow> opcode \<Rightarrow> string list" where
  "opcode_lines a b (t, i1, i2, j1, j2) =
     (if t = Equal then map (\<lambda>line. '' '' @ line) (drop i1 (take i2 a))
      else
        (if t = Replace \<or> t = Delete then map (\<lambda>line. ''-'' @ line) (drop i1 (take i2 a)) else [])
        @ (if t = Replace \<or> t = Insert then map (\<lambda>line. ''+'' @ line) (drop j1 (take j2 b)) else []))"

definition hunk_header :: "opcode list \<Rightarrow> string" where
  "hunk_header grp =
     (case (hd grp, last grp) of
        ((t, i1, i2, j1, j2), (t', i1', i2', j1', j2')) \<Rightarrow>
          ''@@ -'' @ format_range_unified i1 i2' @ '' +'' @ format_range_unified j1 j2' @ '' @@'')"

definition group_lines :: "string list \<Rightarrow> string list \<Rightarrow> opcode list \<Rightarrow> string list" where
  "group_lines a b grp = hunk_header grp # concat (map (opcode_lines a b) grp)"

text \<open>\<^verbatim>\<open>unified_diff(a, b, lineterm="", n=n)\<close> with the default (empty) file names and
  dates: the two file header lines come before the first group, and not at all when there
  is no group.\<close>

definition unified_diff :: "string list \<Rightarrow> string list \<Rightarrow> nat \<Rightarrow> string list" where
  "unified_diff a b n =
     (let groups = get_grouped_opcodes a b n in
      (if groups = [] then [] else [''--- '', ''+++ '']) @ concat (map (group_lines a b) groups))"

section \<open>\<^verbatim>\<open>check_for_markers.py\<close>\<close>

subsection \<open>\<^verbatim>\<open>parse_line_number\<close>\<close>

definition parse_line_number :: "string \<Rightarrow> error + int" where
  "parse_line_number line =
     (if \<not> startswith line ''@@'' then Inl ValueError
      else
        let parts = str_split CHR '' '' line in
        if length parts \<noteq> 4 then Inl ValueError
        else py_int (hd (str_split CHR '','' (parts ! 2))))"

subsection \<open>\<^verbatim>\<open>collect_errors\<close>\<close>

text \<open>
  \<^verbatim>\<open>re.search(pattern, line)\<close> is the standard library's: the scanner takes it as the
  parameter \<open>re_compile\<close>, which gives for a pattern its search function (does the pattern
  match somewhere in the text), or \<open>None\<close> when the pattern does not compile and
  \<^verbatim>\<open>re.search\<close> raises. The list of patterns is \<open>None\<close> when the caller passes Python's
  \<^verbatim>\<open>None\<close>, which the \<^verbatim>\<open>for\<close> loop cannot iterate.
\<close>

type_synonym regex = "string \<Rightarrow> (string \<Rightarrow> bool) option"

definition error_message :: "string \<Rightarrow> string \<Rightarrow> int \<Rightarrow> string" where
  "error_message pattern filename line_number =
     ''Error pattern '' @ py_repr pattern @ '' detected at '' @ filename @ '':''
     @ py_str line_number"

text \<open>The loop \<^verbatim>\<open>for pattern in error_patterns\<close> (lines 98 to 102) over a list.\<close>

fun match_patterns ::
  "regex \<Rightarrow> string \<Rightarrow> int \<Rightarrow> string \<Rightarrow> string list \<Rightarrow> string list \<Rightarrow> error + string list" where
  "match_patterns re_compile filename line_number line [] errors = Inr errors"
| "match_patterns re_compile filename line_number line (pattern # patterns) errors =
     (case re_compile pattern of
        None \<Rightarrow> Inl ReError
      | Some search \<Rightarrow>
          match_patterns re_compile filename line_number line patterns
            (if search line then errors @ [error_message pattern filename line_number]
             else errors))"

text \<open>One iteration of the loop \<^verbatim>\<open>for line in diff_result\<close> (lines 92 to 104); the
  state is \<open>(errors, line_number)\<close>.\<close>

fun scan_line ::
  "regex \<Rightarrow> string \<Rightarrow> string list option \<Rightarrow> string \<Rightarrow> string list \<times> int \<Rightarrow>
   error + string list \<times> int" where
  "scan_line re_compile filename error_patterns line (errors, line_number) =
     (case (if startswith line ''@@'' then parse_line_number line else Inr line_number) of
        Inl e \<Rightarrow> Inl e
      | Inr line_number \<Rightarrow>
          if \<not> startswith line ''+'' \<or> strip line = ''+++'' then Inr (errors, line_number)
          else
            (case error_patterns of
               None \<Rightarrow> Inl TypeError
             | Some patterns \<Rightarrow>
                 (case match_patterns re_compile filename line_number line patterns errors of
                    Inl e \<Rightarrow> Inl e
                  | Inr errors \<Rightarrow>
                      Inr (errors, if startswith line ''+'' then line_number + 1
                                   else line_number))))"

fun scan_lines ::
  "regex \<Rightarrow> string \<Rightarrow> string list option \<Rightarrow> string list \<Rightarrow> string list \<times> int \<Rightarrow>
   error + string list \<times> int" where
  "scan_lines re_compile filename error_patterns [] st = Inr st"
| "scan_lines re_compile filename error_patterns (line # lines) st =
     (case scan_line re_compile filename error_patterns line st of
        Inl e \<Rightarrow> Inl e
      | Inr st \<Rightarrow> scan_lines re_compile filename error_patterns lines st)"

definition collect_errors ::
  "regex \<Rightarrow> string \<Rightarrow> string \<Rightarrow> string \<Rightarrow> string list option \<Rightarrow> error + string list" where
  "collect_errors re_compile filename new_data old_data error_patterns =
     (let diff_result = unified_diff (splitlines old_data) (splitlines new_data) 0 in
      case scan_lines re_compile filename error_patterns diff_result ([], 1) of
        Inl e \<Rightarrow> Inl e
      | Inr (errors, line_number) \<Rightarrow> Inr errors)"

subsection \<open>\<^verbatim>\<open>read_blob\<close> and \<^verbatim>\<open>main\<close>\<close>

text \<open>
  GitPython is the version-control backend. A blob is its object id and its data;
  \<open>decoded\<close> is the data decoded as UTF-8, \<open>None\<close> when decoding raises
  UnicodeDecodeError. Two blobs are equal when their ids are; \<^verbatim>\<open>None\<close> equals only
  \<^verbatim>\<open>None\<close>.

  \<^verbatim>\<open>repo.index.diff(against)\<close> compares the index with \<^verbatim>\<open>against\<close> in reverse: of each
  entry, the \<open>a\<close> side is the staged file (the new version, \<open>None\<close> for a file staged for
  deletion) and the \<open>b\<close> side is the file in \<^verbatim>\<open>against\<close> (the old version, \<open>None\<close> for a
  file that \<^verbatim>\<open>against\<close> does not have). \<^verbatim>\<open>main\<close> reads them so: \<^verbatim>\<open>new_data\<close> from
  \<^verbatim>\<open>a_blob\<close>, \<^verbatim>\<open>old_data\<close> from \<^verbatim>\<open>b_blob\<close>.
\<close>

record blob =
  binsha :: string
  decoded :: "string option"

record diff =
  a_blob :: "blob option"
  b_blob :: "blob option"
  b_path :: "string option"

text \<open>The result of \<^verbatim>\<open>parse_args\<close>: \<open>pattern\<close> is \<open>None\<close> when no \<^verbatim>\<open>--pattern\<close> option
  is given (the option has \<^verbatim>\<open>action="append"\<close> and no default).\<close>

record namespace =
  pattern :: "string list option"
  files :: "string list"

text \<open>The repository: \<open>rev_parse_head\<close> is the commit \<^verbatim>\<open>HEAD\<close> names (\<open>None\<close> when
  \<^verbatim>\<open>rev_parse\<close> raises GitCommandError), \<open>index_diff against paths\<close> the entries of
  \<^verbatim>\<open>repo.index.diff(against, paths=paths)\<close>.\<close>

record repo =
  rev_parse_head :: "string option"
  index_diff :: "string \<Rightarrow> string list option \<Rightarrow> diff list"

definition blob_eq :: "blob option \<Rightarrow> blob option \<Rightarrow> bool" where
  "blob_eq x y =
     (case (x, y) of
        (None, None) \<Rightarrow> True
      | (Some p, Some q) \<Rightarrow> binsha p = binsha q
      | _ \<Rightarrow> False)"

definition read_blob :: "blob option \<Rightarrow> string" where
  "read_blob bl =
     (case bl of
        None \<Rightarrow> []
      | Some p \<Rightarrow> (case decoded p of Some s \<Rightarrow> s | None \<Rightarrow> []))"

text \<open>The loop \<^verbatim>\<open>for diff in diff_result\<close> of \<^verbatim>\<open>main\<close> (lines 123 to 130).\<close>

fun main_loop :: "regex \<Rightarrow> string list option \<Rightarrow> diff list \<Rightarrow> string list \<Rightarrow> error + string list" where
  "main_loop re_compile patterns [] errors = Inr errors"
| "main_loop re_compile patterns (d # ds) errors =
     (if blob_eq (a_blob d) (b_blob d) \<or> b_blob d = None
      then main_loop re_compile patterns ds errors
      else
        let new_data = read_blob (a_blob d);
            old_data = read_blob (b_blob d)
        in case collect_errors re_compile (case b_path d of Some p \<Rightarrow> p | None \<Rightarrow> [])
                  new_data old_data patterns of
             Inl e \<Rightarrow> Inl e
           | Inr found \<Rightarrow> main_loop re_compile patterns ds (errors @ found))"

text \<open>\<^verbatim>\<open>main\<close> returns the exit status; the model returns the printed lines with it.\<close>

definition main :: "regex \<Rightarrow> namespace \<Rightarrow> repo \<Rightarrow> error + int \<times> string list" where
  "main re_compile args rp =
     (let against = (case rev_parse_head rp of Some h \<Rightarrow> h | None \<Rightarrow> []);
          against = (if against = [] then ''4b825dc642cb6eb9a060e54bf8d69288fbee4904''
                     else against);
          diff_result = index_diff rp against (if files args = [] then None else Some (files args))
      in case main_loop re_compile (pattern args) diff_result [] of
           Inl e \<Rightarrow> Inl e
         | Inr errors \<Rightarrow> if errors \<noteq> [] then Inr (1, errors) else Inr (0, []))"

section \<open>\<^verbatim>\<open>check_for_xxx.py\<close>\<close>

text \<open>\<^verbatim>\<open>bytes.splitlines\<close> splits at LF, CR and CR LF only; \<^verbatim>\<open>bytes.lower\<close> maps the
  ASCII capitals; \<^verbatim>\<open>x in y\<close> on bytes is the search for a contiguous part.\<close>

fun bytes_splitlines_from :: "string \<Rightarrow> string \<Rightarrow> string list" where
  "bytes_splitlines_from cur [] = (if cur = [] then [] else [rev cur])"
| "bytes_splitlines_from cur [c] =
     (if c = CHR 0x0A \<or> c = CHR 0x0D then [rev cur] else [rev (c # cur)])"
| "bytes_splitlines_from cur (c # d # cs) =
     (if c = CHR 0x0D \<and> d = CHR 0x0A then rev cur # bytes_splitlines_from [] cs
      else if c = CHR 0x0A \<or> c = CHR 0x0D then rev cur # bytes_splitlines_from [] (d # cs)
      else bytes_splitlines_from (c # cur) (d # cs))"

definition bytes_splitlines :: "string \<Rightarrow> string list" where
  "bytes_splitlines s = bytes_splitlines_from [] s"

definition bytes_lower :: "string \<Rightarrow> string" where
  "bytes_lower s =
     map (\<lambda>c. if 65 \<le> (of_char c :: nat) \<and> (of_char c :: nat) \<le> 90
              then char_of (of_char c + 32 :: nat) else c) s"

fun contains :: "string \<Rightarrow> string \<Rightarrow> bool" where
  "contains sub [] = (sub = [])"
| "contains sub (c # cs) = (startswith (c # cs) sub \<or> contains sub cs)"

text \<open>\<^verbatim>\<open>main\<close> of \<^verbatim>\<open>check_for_xxx.py\<close>: \<open>head_verifies\<close> says whether
  \<^verbatim>\<open>git rev-parse --verify HEAD\<close> succeeds, \<open>git_diff_cached against\<close> is the output of
  \<^verbatim>\<open>git diff --cached against\<close>. The result is the exit status and the matching lines
  the script prints.\<close>

definition xxx_main :: "bool \<Rightarrow> (string \<Rightarrow> string) \<Rightarrow> int \<times> string list" where
  "xxx_main head_verifies git_diff_cached =
     (let against = (if head_verifies then ''HEAD''
                     else ''4b825dc642cb6eb9a060e54bf8d69288fbee4904'');
          lines = bytes_splitlines (git_diff_cached against);
          matching = filter (\<lambda>line. contains ''# xxx'' (bytes_lower line)) lines
      in if matching \<noteq> [] then (1, matching) else (0, []))"

section \<open>A fragment of Python's regular expressions\<close>

text \<open>
  For the concrete runs below: the patterns made of literal characters, an escaped
  punctuation character (\<^verbatim>\<open>\+\<close>), the dot, and the anchors \<^verbatim>\<open>^\<close> and \<^verbatim>\<open>$\<close>, searched
  as \<^verbatim>\<open>re.search\<close> does without flags. \<open>re_fragment\<close> gives \<open>None\<close> for every other
  pattern: whether Python accepts such a pattern is outside the fragment, and no theorem
  below runs one.
\<close>

datatype re_item = Lit char | AnyChar | Bol | Eol

definition re_special :: "char \<Rightarrow> bool" where
  "re_special c = (c \<in> set ''*+?{}[]()|'')"

definition re_punctuation :: "char \<Rightarrow> bool" where
  "re_punctuation c =
     (let n = (of_char c :: nat) in
      (32 \<le> n \<and> n < 48) \<or> (58 \<le> n \<and> n < 65) \<or> (91 \<le> n \<and> n < 97) \<or> (123 \<le> n \<and> n < 127))"

definition re_atom :: "char \<Rightarrow> re_item" where
  "re_atom c =
     (if c = CHR ''.'' then AnyChar else if c = CHR ''^'' then Bol
      else if c = CHR ''$'' then Eol else Lit c)"

fun re_parse :: "string \<Rightarrow> re_item list option" where
  "re_parse [] = Some []"
| "re_parse [c] = (if c = CHR 0x5C \<or> re_special c then None else Some [re_atom c])"
| "re_parse (c # d # cs) =
     (if c = CHR 0x5C then
        (if re_punctuation d then map_option ((#) (Lit d)) (re_parse cs) else None)
      else if re_special c then None
      else map_option ((#) (re_atom c)) (re_parse (d # cs)))"

text \<open>Does the pattern match at position \<open>pos\<close>, where \<open>rest\<close> is the text from there on.\<close>

fun match_here :: "re_item list \<Rightarrow> nat \<Rightarrow> string \<Rightarrow> bool" where
  "match_here [] pos rest = True"
| "match_here (Lit c # items) pos rest =
     (case rest of [] \<Rightarrow> False | x # xs \<Rightarrow> x = c \<and> match_here items (pos + 1) xs)"
| "match_here (AnyChar # items) pos rest =
     (case rest of [] \<Rightarrow> False | x # xs \<Rightarrow> x \<noteq> CHR 0x0A \<and> match_here items (pos + 1) xs)"
| "match_here (Bol # items) pos rest = (pos = 0 \<and> match_here items pos rest)"
| "match_here (Eol # items) pos rest =
     ((rest = [] \<or> rest = [CHR 0x0A]) \<and> match_here items pos rest)"

fun search_from :: "re_item list \<Rightarrow> nat \<Rightarrow> string \<Rightarrow> bool" where
  "search_from items pos [] = match_here items pos []"
| "search_from items pos (x # xs) =
     (match_here items pos (x # xs) \<or> search_from items (pos + 1) xs)"

definition re_fragment :: regex where
  "re_fragment pat = map_option (\<lambda>items text. search_from items 0 text) (re_parse pat)"

section \<open>Predicates and functions of the proofs\<close>


text \<open>\<open>run a j\<close> is the number of consecutive elements of \<open>a\<close> that are not popular,
  ending at index \<open>j\<close>.\<close>

fun run :: "'a list \<Rightarrow> nat \<Rightarrow> nat" where
  "run a 0 = (if popular a (a ! 0) then 0 else 1)"
| "run a (Suc j) = (if popular a (a ! Suc j) then 0 else run a j + 1)"

text \<open>\<open>row_ok a i j2len\<close>: what the main loop has stored when it comes to row \<open>i\<close> of
  two equal sequences. Every stored length is at most the run at its index and at most
  the length stored for the diagonal index \<open>i - 1\<close>, which is the run there.\<close>

definition row_ok :: "'a list \<Rightarrow> nat \<Rightarrow> (nat \<rightharpoonup> nat) \<Rightarrow> bool" where
  "row_ok a i j2len =
     ((\<forall>j k. j2len j = Some k \<longrightarrow> k \<le> run a j \<and> 0 < i \<and> k \<le> j2lenget j2len i)
      \<and> (0 < i \<longrightarrow> j2lenget j2len i = run a (i - 1)))"

text \<open>The errors of the lines of a new file, numbered from \<open>n\<close>.\<close>

fun added_reports :: "regex \<Rightarrow> string \<Rightarrow> string list \<Rightarrow> int \<Rightarrow> string list \<Rightarrow> string list" where
  "added_reports re_compile filename ps n [] = []"
| "added_reports re_compile filename ps n (l # ls) =
     map (\<lambda>p. error_message p filename n)
       (filter (\<lambda>p. the (re_compile p) (CHR ''+'' # l)) ps)
     @ added_reports re_compile filename ps (n + 1) ls"

section \<open>Decimal numerals and hunk headers\<close>

declare str_nat.simps [simp del]

lemma str_split_no_sep: "sep \<notin> set xs \<Longrightarrow> str_split sep xs = [xs]"
  by (induction xs) auto

lemma str_split_append:
  "sep \<notin> set xs \<Longrightarrow> str_split sep (xs @ sep # ys) = xs # str_split sep ys"
  by (induction xs) auto

lemma digit_char_props:
  assumes "d < 10"
  shows "isdigit (digit_char d)" and "digit_val (digit_char d) = d"
    and "digit_char d \<noteq> CHR '' ''" and "digit_char d \<noteq> CHR '',''"
    and "digit_char d \<noteq> CHR ''+''" and "digit_char d \<noteq> CHR ''-''"
    and "\<not> int_isspace (digit_char d)"
proof -
  from assms have "d \<in> {0, 1, 2, 3, 4, 5, 6, 7, 8, 9}" by auto
  then show "isdigit (digit_char d)" and "digit_val (digit_char d) = d"
    and "digit_char d \<noteq> CHR '' ''" and "digit_char d \<noteq> CHR '',''"
    and "digit_char d \<noteq> CHR ''+''" and "digit_char d \<noteq> CHR ''-''"
    and "\<not> int_isspace (digit_char d)"
    by (auto simp: digit_char_def isdigit_def digit_val_def int_isspace_def)
qed

lemma isdigit_facts:
  assumes "isdigit c"
  shows "c \<noteq> CHR '' ''" and "c \<noteq> CHR '',''" and "c \<noteq> CHR ''+''" and "c \<noteq> CHR ''-''"
    and "\<not> int_isspace c"
  using assms by (auto simp: isdigit_def int_isspace_def)

lemma str_nat_digits: "list_all isdigit (str_nat n)"
proof (induction n rule: str_nat.induct)
  case (1 n)
  show ?case
  proof (cases "n < 10")
    case True
    then show ?thesis by (subst str_nat.simps) (simp add: digit_char_props)
  next
    case False
    then have "list_all isdigit (str_nat (n div 10))" using 1 by simp
    moreover have "isdigit (digit_char (n mod 10))" by (simp add: digit_char_props)
    ultimately show ?thesis using False by (subst str_nat.simps) simp
  qed
qed

lemma str_nat_not_Nil: "str_nat n \<noteq> []"
  by (subst str_nat.simps) simp

lemma digits_from_all:
  "list_all isdigit ds \<Longrightarrow>
   digits_from n ds = Some (foldl (\<lambda>v c. 10 * v + digit_val c) n ds)"
  by (induction n ds rule: digits_from.induct) auto

lemma foldl_str_nat: "foldl (\<lambda>v c. 10 * v + digit_val c) 0 (str_nat n) = n"
proof (induction n rule: str_nat.induct)
  case (1 n)
  show ?case
  proof (cases "n < 10")
    case True
    then show ?thesis by (subst str_nat.simps) (simp add: digit_char_props)
  next
    case False
    then have "foldl (\<lambda>v c. 10 * v + digit_val c) 0 (str_nat (n div 10)) = n div 10"
      using 1 by simp
    then show ?thesis using False
      by (subst str_nat.simps) (simp add: digit_char_props)
  qed
qed

lemma parse_digits_str_nat: "parse_digits (str_nat n) = Some n"
proof -
  obtain c cs where s: "str_nat n = c # cs"
    using str_nat_not_Nil by (cases "str_nat n") auto
  have d: "isdigit c" "list_all isdigit cs"
    using str_nat_digits[of n] s by auto
  have "foldl (\<lambda>v c. 10 * v + digit_val c) (digit_val c) cs = n"
    using foldl_str_nat[of n] s by simp
  then show ?thesis using s d by (simp add: parse_digits_def digits_from_all)
qed

lemma strip_chars_id:
  assumes "s \<noteq> []" "\<not> sp (hd s)" "\<not> sp (last s)"
  shows "strip_chars sp s = s"
proof -
  have "dropWhile sp s = s" using assms(1,2) by (cases s) auto
  moreover have "dropWhile sp (rev s) = rev s"
    using assms(1,3) by (cases "rev s") (auto simp: last_rev[symmetric] simp del: last_rev)
  ultimately show ?thesis by (simp add: strip_chars_def)
qed

lemma py_int_plus_str_nat: "py_int (CHR ''+'' # str_nat n) = Inr (int n)"
proof -
  have l: "\<not> int_isspace (last (CHR ''+'' # str_nat n))"
    using str_nat_digits[of n] str_nat_not_Nil[of n]
    by (auto simp: list_all_iff isdigit_facts)
  have "\<not> int_isspace CHR ''+''" by (simp add: int_isspace_def)
  then have "strip_chars int_isspace (CHR ''+'' # str_nat n) = CHR ''+'' # str_nat n"
    using l by (intro strip_chars_id) auto
  then show ?thesis by (simp add: py_int_def parse_digits_str_nat)
qed

lemma no_space_str_nat: "CHR '' '' \<notin> set (str_nat n)"
proof
  assume "CHR '' '' \<in> set (str_nat n)"
  then have "isdigit CHR '' ''" using str_nat_digits[of n] by (auto simp: list_all_iff)
  then show False by (simp add: isdigit_def)
qed

lemma no_comma_str_nat: "CHR '','' \<notin> set (str_nat n)"
proof
  assume "CHR '','' \<in> set (str_nat n)"
  then have "isdigit CHR '',''" using str_nat_digits[of n] by (auto simp: list_all_iff)
  then show False by (simp add: isdigit_def)
qed

lemma py_str_int: "py_str (int n) = str_nat n"
  by (simp add: py_str_def)

lemma format_range_unified_eq:
  "format_range_unified start stop =
     (if stop - start = 1 then str_nat (start + 1)
      else str_nat (if stop - start = 0 then start else start + 1)
           @ CHR '','' # str_nat (stop - start))"
  by (simp add: format_range_unified_def Let_def py_str_int del: of_nat_Suc of_nat_add)

text \<open>A header whose two ranges hold no space has four fields, the third is the new
  range after a plus sign.\<close>

lemma parse_line_number_header:
  assumes "CHR '' '' \<notin> set r1" "CHR '' '' \<notin> set r2"
  shows "parse_line_number (''@@ -'' @ r1 @ '' +'' @ r2 @ '' @@'')
         = py_int (hd (str_split CHR '','' (CHR ''+'' # r2)))"
proof -
  have 1: "str_split CHR '' '' (''@@ -'' @ r1 @ '' +'' @ r2 @ '' @@'')
           = [''@@'', CHR ''-'' # r1, CHR ''+'' # r2, ''@@'']"
    using str_split_append[of "CHR '' ''" "''@@''" "CHR ''-'' # r1 @ '' +'' @ r2 @ '' @@''"]
      str_split_append[of "CHR '' ''" "CHR ''-'' # r1" "CHR ''+'' # r2 @ '' @@''"]
      str_split_append[of "CHR '' ''" "CHR ''+'' # r2" "''@@''"]
      str_split_no_sep[of "CHR '' ''" "''@@''"] assms
    by simp
  have 2: "startswith (''@@ -'' @ r1 @ '' +'' @ r2 @ '' @@'') ''@@''"
    by (simp add: startswith_def)
  show ?thesis
    unfolding parse_line_number_def Let_def 1 using 2 by simp
qed

lemma format_range_unified_parse:
  "CHR '' '' \<notin> set (format_range_unified start stop)"
  "py_int (hd (str_split CHR '','' (CHR ''+'' # format_range_unified start stop)))
   = Inr (int (if stop - start = 0 then start else start + 1))"
proof -
  show "CHR '' '' \<notin> set (format_range_unified start stop)"
    by (simp add: format_range_unified_eq no_space_str_nat)
  have a: "\<And>x. hd (str_split CHR '','' (CHR ''+'' # str_nat x)) = CHR ''+'' # str_nat x"
    using str_split_no_sep[of "CHR '',''"] no_comma_str_nat by simp
  have b: "\<And>x y. hd (str_split CHR '','' (CHR ''+'' # str_nat x @ CHR '','' # y))
                  = CHR ''+'' # str_nat x"
  proof -
    fix x y
    show "hd (str_split CHR '','' (CHR ''+'' # str_nat x @ CHR '','' # y)) = CHR ''+'' # str_nat x"
      using str_split_append[of "CHR '',''" "CHR ''+'' # str_nat x" y] no_comma_str_nat by simp
  qed
  show "py_int (hd (str_split CHR '','' (CHR ''+'' # format_range_unified start stop)))
   = Inr (int (if stop - start = 0 then start else start + 1))"
    by (simp add: format_range_unified_eq a b py_int_plus_str_nat del: str_split.simps)
qed

lemma parse_line_number_hunk_header:
  "parse_line_number (''@@ -'' @ format_range_unified i1 i2 @ '' +''
                      @ format_range_unified j1 j2 @ '' @@'')
   = Inr (int (if j2 - j1 = 0 then j1 else j1 + 1))"
proof -
  have "parse_line_number (''@@ -'' @ format_range_unified i1 i2 @ '' +''
                      @ format_range_unified j1 j2 @ '' @@'')
        = py_int (hd (str_split CHR '','' (CHR ''+'' # format_range_unified j1 j2)))"
    by (rule parse_line_number_header[OF format_range_unified_parse(1)
          format_range_unified_parse(1)])
  then show ?thesis by (simp only: format_range_unified_parse(2))
qed



section \<open>The scanning loop\<close>






section \<open>The diff of a new file and of a deleted file\<close>

lemma find_longest_match_empty_a: "find_longest_match [] b 0 0 0 bhi = (0, 0, 0)"
  by (simp add: find_longest_match_def)

lemma b2j_empty: "b2j [] x = []"
  by (simp add: b2j_def)

lemma flm_outer_empty_b: "flm_outer a [] blo bhi is (m, best) = best"
  by (induction "is" arbitrary: m) (simp_all add: b2j_empty)

lemma find_longest_match_empty_b: "find_longest_match a [] 0 ahi 0 0 = (0, 0, 0)"
  by (simp add: find_longest_match_def flm_outer_empty_b)

lemma get_opcodes_new_file: "b \<noteq> [] \<Longrightarrow> get_opcodes [] b = [(Insert, 0, 0, 0, length b)]"
  by (simp add: get_opcodes_def get_matching_blocks_def find_longest_match_empty_a)

lemma get_opcodes_deleted_file: "a \<noteq> [] \<Longrightarrow> get_opcodes a [] = [(Delete, 0, length a, 0, 0)]"
  by (simp add: get_opcodes_def get_matching_blocks_def find_longest_match_empty_b)

text \<open>Against an empty old text the diff is one hunk that adds every line of the new
  text.\<close>

lemma unified_diff_new_file:
  assumes "b \<noteq> []"
  shows "unified_diff [] b 0 =
           [''--- '', ''+++ '', hunk_header [(Insert, 0, 0, 0, length b)]]
           @ map ((#) CHR ''+'') b"
  using assms
  by (simp add: unified_diff_def get_grouped_opcodes_def get_opcodes_new_file fix_first_def
      fix_last_def group_lines_def Let_def)

text \<open>Against an empty new text the diff is one hunk that removes every line of the old
  text.\<close>

lemma unified_diff_deleted_file:
  assumes "a \<noteq> []"
  shows "unified_diff a [] 0 =
           [''--- '', ''+++ '', hunk_header [(Delete, 0, length a, 0, 0)]]
           @ map ((#) CHR ''-'') a"
  using assms
  by (simp add: unified_diff_def get_grouped_opcodes_def get_opcodes_deleted_file fix_first_def
      fix_last_def group_lines_def Let_def)

section \<open>What the loop does with each kind of diff line\<close>

lemma scan_line_file_header:
  "scan_line re_compile filename ps ''--- '' st = Inr st"
  "scan_line re_compile filename ps ''+++ '' st = Inr st"
proof -
  have "\<not> startswith ''--- '' ''@@''" "\<not> startswith ''--- '' ''+''"
    "\<not> startswith ''+++ '' ''@@''" "strip ''+++ '' = ''+++''"
    by code_simp+
  then show "scan_line re_compile filename ps ''--- '' st = Inr st"
    "scan_line re_compile filename ps ''+++ '' st = Inr st"
    by (cases st; simp)+
qed

text \<open>At a hunk header the counter becomes the start of the new range: the range of a
  group runs from the start of its first opcode to the end of its last.\<close>

lemma hunk_header_eq:
  "hunk_header grp =
     ''@@ -'' @ format_range_unified (fst (snd (hd grp))) (fst (snd (snd (last grp))))
     @ '' +'' @ format_range_unified (fst (snd (snd (snd (hd grp))))) (snd (snd (snd (snd (last grp)))))
     @ '' @@''"
  by (simp add: hunk_header_def split: prod.splits)

lemma scan_line_hunk_header:
  "scan_line re_compile filename ps (hunk_header grp) (errs, n)
   = Inr (errs, int (if snd (snd (snd (snd (last grp)))) - fst (snd (snd (snd (hd grp)))) = 0
                     then fst (snd (snd (snd (hd grp))))
                     else fst (snd (snd (snd (hd grp)))) + 1))"
proof -
  have "startswith (hunk_header grp) ''@@''" "\<not> startswith (hunk_header grp) ''+''"
    by (simp_all add: startswith_def hunk_header_eq)
  then show ?thesis
    using parse_line_number_hunk_header by (simp add: hunk_header_eq)
qed

lemma scan_line_removed: "scan_line re_compile filename ps (CHR ''-'' # l) st = Inr st"
proof -
  have "\<not> startswith (CHR ''-'' # l) ''@@''" "\<not> startswith (CHR ''-'' # l) ''+''"
    by (simp_all add: startswith_def)
  then show ?thesis by (cases st) simp
qed

lemma scan_lines_removed:
  "scan_lines re_compile filename ps (map ((#) CHR ''-'') a) st = Inr st"
  by (induction a) (simp_all add: scan_line_removed del: scan_line.simps)

lemma scan_line_added:
  assumes "strip (CHR ''+'' # l) \<noteq> ''+++''"
  shows "scan_line re_compile filename (Some ps) (CHR ''+'' # l) (errs, n)
         = (case match_patterns re_compile filename n (CHR ''+'' # l) ps errs of
              Inl e \<Rightarrow> Inl e
            | Inr es \<Rightarrow> Inr (es, n + 1))"
proof -
  have "\<not> startswith (CHR ''+'' # l) ''@@''" "startswith (CHR ''+'' # l) ''+''"
    by (simp_all add: startswith_def)
  then show ?thesis using assms by simp
qed

text \<open>When the new text has no line, nothing is reported and nothing is raised, whatever
  the old text and the patterns (the unset \<open>None\<close> included).\<close>

lemma collect_errors_all_removed:
  assumes "splitlines new_data = []"
  shows "collect_errors re_compile filename new_data old_data ps = Inr []"
proof (cases "splitlines old_data = []")
  case True
  have "unified_diff [] [] 0 = []" by code_simp
  then show ?thesis using assms True by (simp add: collect_errors_def)
next
  case False
  show ?thesis
    using assms
    by (simp add: collect_errors_def unified_diff_deleted_file[OF False]
        scan_line_file_header scan_line_hunk_header scan_lines_removed
        del: scan_line.simps)
qed



section \<open>The diff of a text with itself\<close>

text \<open>
  For two equal sequences the longest match found is the whole sequence, also when the
  popularity heuristic hides elements from the search: the match found by the main loop
  lies on the diagonal, and the two extension loops stretch it to both ends.

  \<open>run a j\<close> is the value the main loop stores for the diagonal position \<open>(j, j)\<close>;
  the best size so far is at least the run at every earlier index.
\<close>

text \<open>One row of the main loop. \<open>j2lenget j2len j + 1\<close> is the length \<open>k\<close> stored for
  \<open>j\<close>; the best match moves only at the diagonal index \<open>j = i\<close>, when smaller indices
  cannot beat the best so far and the diagonal beats every index of the row.\<close>

lemma flm_inner_diag:
  assumes "sorted js" and "\<forall>j\<in>set js. j < bhi"
    and "\<forall>j\<in>set js. j < i \<longrightarrow> j2lenget j2len j + 1 \<le> bs"
    and "\<forall>j\<in>set js. j2lenget j2len j + 1 \<le> j2lenget j2len i + 1"
    and "i \<in> set js \<or> j2lenget j2len i + 1 \<le> bs"
    and "bi = bj"
    and "flm_inner i 0 bhi j2len js (m, bi, bj, bs) = (m', bi', bj', bs')"
  shows "bi' = bj' \<and> bs \<le> bs' \<and> j2lenget j2len i + 1 \<le> bs'
         \<and> (\<forall>x. m' x = (if x \<in> set js then Some (j2lenget j2len x + 1) else m x))"
  using assms
proof (induction js arbitrary: m bi bj bs)
  case Nil
  then show ?case by simp
next
  case (Cons j js)
  let ?k = "j2lenget j2len j + 1"
  have s: "sorted js" and le: "\<forall>x\<in>set js. j \<le> x"
    using Cons.prems(1) by auto
  have hi: "\<forall>x\<in>set js. x < bhi" and jhi: "j < bhi"
    using Cons.prems(2) by auto
  have B: "\<forall>x\<in>set js. j2lenget j2len x + 1 \<le> j2lenget j2len i + 1"
    using Cons.prems(4) by auto
  show ?case
  proof (cases "bs < ?k")
    case True
    have "j = i"
    proof (rule ccontr)
      assume ne: "j \<noteq> i"
      show False
      proof (cases "j < i")
        case True
        then have "?k \<le> bs" using Cons.prems(3) by simp
        then show False using \<open>bs < ?k\<close> by simp
      next
        case False
        then have "i < j" using ne by simp
        then have "i \<notin> set (j # js)" using le by auto
        then have "j2lenget j2len i + 1 \<le> bs" using Cons.prems(5) by blast
        moreover have "?k \<le> j2lenget j2len i + 1" using Cons.prems(4) by simp
        ultimately show False using \<open>bs < ?k\<close> by simp
      qed
    qed
    have step: "flm_inner i 0 bhi j2len js (m(j \<mapsto> ?k), i + 1 - ?k, j + 1 - ?k, ?k)
                = (m', bi', bj', bs')"
      using Cons.prems(7) True jhi by (simp add: Let_def)
    have A': "\<forall>x\<in>set js. x < i \<longrightarrow> j2lenget j2len x + 1 \<le> ?k"
      using Cons.prems(3) True by fastforce
    have D': "i \<in> set js \<or> j2lenget j2len i + 1 \<le> ?k"
      using \<open>j = i\<close> by simp
    have E': "i + 1 - ?k = j + 1 - ?k" using \<open>j = i\<close> by simp
    from Cons.IH[OF s hi A' B D' E' step] True show ?thesis by auto
  next
    case False
    have step: "flm_inner i 0 bhi j2len js (m(j \<mapsto> ?k), bi, bj, bs) = (m', bi', bj', bs')"
      using Cons.prems(7) False jhi by (simp add: Let_def)
    have A': "\<forall>x\<in>set js. x < i \<longrightarrow> j2lenget j2len x + 1 \<le> bs"
      using Cons.prems(3) by simp
    have D': "i \<in> set js \<or> j2lenget j2len i + 1 \<le> bs"
      using Cons.prems(5) False by auto
    from Cons.IH[OF s hi A' B D' Cons.prems(6) step] show ?thesis by auto
  qed
qed

lemma row_step:
  assumes "row_ok a i j2len" "i < length a" "\<not> popular a (a ! i)"
  shows "j2lenget j2len i + 1 = run a i"
    and "j < length a \<Longrightarrow> a ! j = a ! i \<Longrightarrow> j2lenget j2len j + 1 \<le> run a j"
    and "j2lenget j2len j + 1 \<le> j2lenget j2len i + 1"
proof -
  show "j2lenget j2len i + 1 = run a i"
  proof (cases i)
    case 0
    then show ?thesis using assms(3) by (simp add: j2lenget_def)
  next
    case (Suc i')
    then show ?thesis using assms(1,3) by (simp add: row_ok_def)
  qed
  show "j2lenget j2len j + 1 \<le> run a j" if "j < length a" "a ! j = a ! i"
  proof (cases j)
    case 0
    then show ?thesis using assms(3) that by (simp add: j2lenget_def)
  next
    case (Suc j')
    have "j2lenget j2len (Suc j') \<le> run a j'"
      using assms(1) by (cases "j2len j'") (auto simp: j2lenget_def row_ok_def)
    then show ?thesis using Suc assms(3) that by simp
  qed
  show "j2lenget j2len j + 1 \<le> j2lenget j2len i + 1"
  proof (cases j)
    case 0
    then show ?thesis by (simp add: j2lenget_def)
  next
    case (Suc j')
    have "j2lenget j2len (Suc j') \<le> j2lenget j2len i"
      using assms(1) by (cases "j2len j'") (auto simp: j2lenget_def row_ok_def)
    then show ?thesis using Suc by simp
  qed
qed

lemma flm_outer_diag:
  assumes "is = [i..<length a]"
    and "row_ok a i j2len" and "\<forall>j<i. run a j \<le> bs" and "bi = bj"
    and "flm_outer a a 0 (length a) is (j2len, bi, bj, bs) = (bi', bj', bs')"
  shows "bi' = bj'"
  using assms
proof (induction "is" arbitrary: i j2len bi bj bs)
  case Nil
  then show ?case by simp
next
  case (Cons x xs)
  from Cons.prems(1)[symmetric] have lt: "i < length a" and x: "x = i"
    and xs: "xs = [Suc i..<length a]"
    by (auto simp: upt_eq_Cons_conv)
  obtain m' ci cj cs where inner:
    "flm_inner i 0 (length a) j2len (b2j a (a ! i)) (Map.empty, bi, bj, bs) = (m', ci, cj, cs)"
    by (metis prod_cases4)
  have rest: "flm_outer a a 0 (length a) xs (m', ci, cj, cs) = (bi', bj', bs')"
    using Cons.prems(5) inner x by simp
  have "ci = cj \<and> row_ok a (Suc i) m' \<and> (\<forall>j<Suc i. run a j \<le> cs)"
  proof (cases "popular a (a ! i)")
    case True
    then have "m' = Map.empty" "ci = bi" "cj = bj" "cs = bs"
      using inner by (simp_all add: b2j_def)
    moreover have "run a i = 0" using True by (cases i) simp_all
    ultimately show ?thesis
      using Cons.prems(3,4) by (auto simp: row_ok_def j2lenget_def less_Suc_eq)
  next
    case False
    let ?js = "filter (\<lambda>j. a ! j = a ! i) [0..<length a]"
    have js: "b2j a (a ! i) = ?js" using False by (simp add: b2j_def)
    have mem: "i \<in> set ?js" using lt by simp
    have 1: "sorted ?js" by (simp add: sorted_wrt_filter)
    have 2: "\<forall>j\<in>set ?js. j < length a" by simp
    have 3: "\<forall>j\<in>set ?js. j < i \<longrightarrow> j2lenget j2len j + 1 \<le> bs"
    proof (intro ballI impI)
      fix j assume "j \<in> set ?js" "j < i"
      then have "j2lenget j2len j + 1 \<le> run a j"
        using row_step(2)[OF Cons.prems(2) lt False] by simp
      then show "j2lenget j2len j + 1 \<le> bs"
        using Cons.prems(3) \<open>j < i\<close> by fastforce
    qed
    have 4: "\<forall>j\<in>set ?js. j2lenget j2len j + 1 \<le> j2lenget j2len i + 1"
      using row_step(3)[OF Cons.prems(2) lt False] by simp
    have 5: "i \<in> set ?js \<or> j2lenget j2len i + 1 \<le> bs" using mem by simp
    note r = flm_inner_diag[OF 1 2 3 4 5 Cons.prems(4) inner[unfolded js]]
    have ki: "j2lenget j2len i + 1 = run a i"
      by (rule row_step(1)[OF Cons.prems(2) lt False])
    have m': "\<And>x. m' x = (if x \<in> set ?js then Some (j2lenget j2len x + 1) else None)"
      using r by simp
    have "row_ok a (Suc i) m'"
      unfolding row_ok_def
    proof (intro conjI allI impI)
      fix j k assume "m' j = Some k"
      then have j: "j \<in> set ?js" and k: "k = j2lenget j2len j + 1"
        using m'[of j] by (auto split: if_splits)
      have d: "j2lenget m' (Suc i) = run a i"
        using m'[of i] mem ki by (simp add: j2lenget_def)
      show "k \<le> run a j"
        using row_step(2)[OF Cons.prems(2) lt False, of j] j k by simp
      show "0 < Suc i" by simp
      show "k \<le> j2lenget m' (Suc i)"
        using row_step(3)[OF Cons.prems(2) lt False, of j] k d ki by simp
    next
      show "j2lenget m' (Suc i) = run a (Suc i - 1)"
        using m'[of i] mem ki by (simp add: j2lenget_def)
    qed
    moreover have "\<forall>j<Suc i. run a j \<le> cs"
      using Cons.prems(3) r ki by (auto simp: less_Suc_eq)
    ultimately show ?thesis using r by simp
  qed
  then show ?case using Cons.IH[OF xs _ _ _ rest] by blast
qed

lemma extend_left_diag: "extend_left a a 0 0 (i, i, k) = (0, 0, i + k)"
proof (induction i arbitrary: k)
  case 0
  show ?case by (subst extend_left.simps) simp
next
  case (Suc i)
  have "extend_left a a 0 0 (Suc i, Suc i, k) = extend_left a a 0 0 (i, i, k + 1)"
    by (subst extend_left.simps) (simp del: extend_left.simps)
  then show ?case using Suc[of "k + 1"] by (simp del: extend_left.simps)
qed

lemma extend_right_diag:
  "k \<le> n \<Longrightarrow> extend_right a a n n (0, 0, k) = (0, 0, n)"
proof (induction "n - k" arbitrary: k)
  case 0
  then show ?case by (subst extend_right.simps) simp
next
  case (Suc d)
  then have "extend_right a a n n (0, 0, k) = extend_right a a n n (0, 0, k + 1)"
    by (subst extend_right.simps) (simp del: extend_right.simps)
  moreover have "d = n - (k + 1)" "k + 1 \<le> n" using Suc.hyps(2) by simp_all
  ultimately show ?case using Suc.hyps(1)[of "k + 1"] by (simp del: extend_right.simps)
qed

lemma find_longest_match_same:
  "find_longest_match a a 0 (length a) 0 (length a) = (0, 0, length a)"
proof -
  obtain bi bj bs where
    o: "flm_outer a a 0 (length a) [0..<length a] (Map.empty, 0, 0, 0) = (bi, bj, bs)"
    by (metis prod_cases3)
  have "bi = bj"
    using flm_outer_diag[OF refl _ _ _ o] by (simp add: row_ok_def)
  moreover have "best_ok 0 (length a) bi bs"
    using flm_outer_bounds[OF refl _ _ _ o, of 0] by (simp add: best_ok_def)
  then have "bi + bs \<le> length a" by (auto simp: best_ok_def)
  ultimately show ?thesis
    using o
    by (simp add: find_longest_match_def extend_left_diag extend_right_diag
        del: extend_left.simps extend_right.simps)
qed

lemma get_opcodes_same: "a \<noteq> [] \<Longrightarrow> get_opcodes a a = [(Equal, 0, length a, 0, length a)]"
  by (simp add: get_opcodes_def get_matching_blocks_def find_longest_match_same)

lemma unified_diff_same: "unified_diff a a 0 = []"
proof (cases "a = []")
  case True
  have "unified_diff [] [] 0 = []" by code_simp
  then show ?thesis using True by simp
next
  case False
  then show ?thesis
    by (simp add: unified_diff_def get_grouped_opcodes_def get_opcodes_same fix_first_def
        fix_last_def Let_def)
qed

text \<open>
  C4. For every text, every file name and every list of patterns (the unset list
  included, and whatever the regular expressions do), \<^verbatim>\<open>collect_errors\<close> with the old
  text equal to the new text returns the empty list and raises nothing.
\<close>

theorem collect_errors_identical:
  "collect_errors re_compile filename t t error_patterns = Inr []"
  by (simp add: collect_errors_def unified_diff_same)

section \<open>The patterns of one line, a new file, and the files \<^verbatim>\<open>main\<close> skips\<close>

text \<open>A line that reaches the loop over the patterns gets one error for each pattern that
  matches it, in the order of the list (every pattern must compile).\<close>

lemma match_patterns_eq:
  assumes "\<forall>p\<in>set ps. re_compile p \<noteq> None"
  shows "match_patterns re_compile filename n line ps errs
         = Inr (errs @ map (\<lambda>p. error_message p filename n)
                         (filter (\<lambda>p. the (re_compile p) line) ps))"
  using assms
proof (induction ps arbitrary: errs)
  case Nil
  then show ?case by simp
next
  case (Cons p ps)
  then obtain search where "re_compile p = Some search" by auto
  then show ?case using Cons by simp
qed

lemma scan_lines_added:
  assumes "\<forall>p\<in>set ps. re_compile p \<noteq> None"
    and "\<forall>l\<in>set b. strip (CHR ''+'' # l) \<noteq> ''+++''"
  shows "scan_lines re_compile filename (Some ps) (map ((#) CHR ''+'') b) (errs, n)
         = Inr (errs @ added_reports re_compile filename ps n b, n + int (length b))"
  using assms(2)
proof (induction b arbitrary: errs n)
  case Nil
  then show ?case by simp
next
  case (Cons l b)
  have "strip (CHR ''+'' # l) \<noteq> ''+++''" using Cons.prems by simp
  then have "scan_line re_compile filename (Some ps) (CHR ''+'' # l) (errs, n)
     = Inr (errs @ map (\<lambda>p. error_message p filename n)
                     (filter (\<lambda>p. the (re_compile p) (CHR ''+'' # l)) ps), n + 1)"
    by (simp add: scan_line_added match_patterns_eq[OF assms(1)] del: scan_line.simps)
  then show ?case using Cons by (simp del: scan_line.simps)
qed

text \<open>Against an empty old text (the first commit of a file), when no line of the new
  text is \<^verbatim>\<open>++\<close> with white space around it: every line is tested, and the numbers
  start at 1.\<close>

lemma collect_errors_new_file:
  assumes "\<forall>p\<in>set ps. re_compile p \<noteq> None"
    and "\<forall>l\<in>set (splitlines new_data). strip (CHR ''+'' # l) \<noteq> ''+++''"
  shows "collect_errors re_compile filename new_data [] (Some ps)
         = Inr (added_reports re_compile filename ps 1 (splitlines new_data))"
proof (cases "splitlines new_data = []")
  case True
  then show ?thesis by (simp add: collect_errors_all_removed)
next
  case False
  have "length (splitlines new_data) \<noteq> 0" using False by simp
  then show ?thesis
    by (simp add: collect_errors_def splitlines_def[of "[]"] unified_diff_new_file[OF False]
        scan_line_file_header scan_line_hunk_header scan_lines_added[OF assms]
        del: scan_line.simps)
qed

text \<open>\<^verbatim>\<open>main\<close> adds no error for an entry whose two blobs are equal, and none for an
  entry whose new blob (the \<open>a\<close> side) is absent.\<close>

lemma main_loop_unchanged_or_deleted:
  assumes "blob_eq (a_blob d) (b_blob d) \<or> a_blob d = None"
  shows "main_loop re_compile ps (d # ds) errors = main_loop re_compile ps ds errors"
proof (cases "blob_eq (a_blob d) (b_blob d) \<or> b_blob d = None")
  case True
  then show ?thesis by simp
next
  case False
  then have "a_blob d = None" using assms by simp
  then have "splitlines (read_blob (a_blob d)) = []"
    by (simp add: read_blob_def splitlines_def)
  then show ?thesis
    using False by (simp add: collect_errors_all_removed)
qed

section \<open>Runs of the two scripts\<close>

text \<open>
  C1 (both scripts never flag a removed marker line). The commit removes the only line
  \<^verbatim>\<open># xxx\<close> of \<^verbatim>\<open>f.py\<close>. \<^verbatim>\<open>check_for_xxx.py\<close> reads the output of
  \<^verbatim>\<open>git diff --cached HEAD\<close>, finds the marker in the removed line \<^verbatim>\<open>-# xxx\<close> and
  returns status 1 with that line; \<^verbatim>\<open>collect_errors\<close> on the same change reports
  nothing.
\<close>

theorem xxx_main_flags_removed_marker:
  "xxx_main True
     (\<lambda>against. ''diff --git a/f.py b/f.py\<newline>index 8a1b2c3..e69de29 100644\<newline>--- a/f.py\<newline>+++ b/f.py\<newline>@@ -1 +0,0 @@\<newline>-# xxx\<newline>'')
   = (1, [''-# xxx''])
   \<and> collect_errors re_fragment ''f.py'' [] ''# xxx\<newline>'' (Some [''# xxx'']) = Inr []"
  by code_simp

text \<open>
  C2 (the line number of every error is the position of the matched line in the new
  file). The new file has the lines \<^verbatim>\<open>++\<close> and \<^verbatim>\<open># xxx\<close>, the old file is empty: the
  marker is line 2 of the new file, and the error says line 1. In the run the claim
  gives (a marker inserted as line 3) the error says line 3.
\<close>

theorem collect_errors_line_number_after_plus_plus:
  "splitlines ''++\<newline># xxx\<newline>'' = [''++'', ''# xxx'']
   \<and> collect_errors re_fragment ''f.py'' ''++\<newline># xxx\<newline>'' [] (Some [''# xxx''])
       = Inr [''Error pattern '' @ [CHR 0x27] @ ''# xxx'' @ [CHR 0x27] @ '' detected at f.py:1'']
   \<and> collect_errors re_fragment ''f.py'' ''a\<newline>b\<newline># xxx\<newline>c\<newline>'' ''a\<newline>b\<newline>c\<newline>''
         (Some [''# xxx''])
       = Inr [''Error pattern '' @ [CHR 0x27] @ ''# xxx'' @ [CHR 0x27] @ '' detected at f.py:3'']"
  by code_simp

text \<open>
  C3 (every added line advances the line counter by one). The added line \<^verbatim>\<open>++\<close> is
  the diff entry \<^verbatim>\<open>+++\<close>; the loop takes it for the file header, and leaves the errors
  and the counter as they were, whatever the patterns.
\<close>

theorem scan_line_plus_plus_not_counted:
  "unified_diff [] [''++''] 0 = [''--- '', ''+++ '', ''@@ -0,0 +1 @@'', ''+++'']
   \<and> scan_line re_compile filename error_patterns ''+++'' (errors, line_number)
       = Inr (errors, line_number)"
proof
  show "unified_diff [] [''++''] 0 = [''--- '', ''+++ '', ''@@ -0,0 +1 @@'', ''+++'']"
    by code_simp
  have "strip ''+++'' = ''+++''" by code_simp
  moreover have "\<not> startswith ''+++'' ''@@''" by code_simp
  ultimately show "scan_line re_compile filename error_patterns ''+++'' (errors, line_number)
       = Inr (errors, line_number)"
    by simp
qed

text \<open>
  C6 (without a pattern option nothing is flagged and the status is 0). With no
  \<^verbatim>\<open>--pattern\<close> option \<^verbatim>\<open>args.pattern\<close> is \<^verbatim>\<open>None\<close>; the staged \<^verbatim>\<open>f.py\<close> has one
  line more than the committed one, and the loop over the patterns raises TypeError at
  that line.
\<close>

theorem main_without_pattern_raises:
  "main re_compile \<lparr>pattern = None, files = []\<rparr>
     \<lparr>rev_parse_head = Some ''3f2a9c'',
      index_diff = (\<lambda>against paths.
        [\<lparr>a_blob = Some \<lparr>binsha = ''a1'', decoded = Some ''a\<newline>b\<newline>''\<rparr>,
          b_blob = Some \<lparr>binsha = ''b2'', decoded = Some ''a\<newline>''\<rparr>,
          b_path = Some ''f.py''\<rparr>])\<rparr>
   = Inl TypeError"
  by code_simp

text \<open>
  C8 (every added line is tested against every pattern, one error for each pattern that
  matches). The added line \<^verbatim>\<open>++\<close> is matched by both patterns \<^verbatim>\<open>\+\<close> and \<^verbatim>\<open>^.\<close>, as
  the diff entry \<^verbatim>\<open>+++\<close> is, and it is reported for neither; the added line \<^verbatim>\<open>+x\<close> is
  reported for both, in the order of the list.
\<close>

theorem added_plus_plus_line_not_tested:
  "map (\<lambda>p. map_option (\<lambda>search. (search ''++'', search ''+++'')) (re_fragment p))
     [[CHR 0x5C, CHR ''+''], ''^.''] = [Some (True, True), Some (True, True)]
   \<and> collect_errors re_fragment ''f.py'' ''++\<newline>'' [] (Some [[CHR 0x5C, CHR ''+''], ''^.''])
       = Inr []
   \<and> collect_errors re_fragment ''f.py'' ''+x\<newline>'' [] (Some [[CHR 0x5C, CHR ''+''], ''^.''])
       = Inr [error_message [CHR 0x5C, CHR ''+''] ''f.py'' 1, error_message ''^.'' ''f.py'' 1]"
  by code_simp

text \<open>
  C9 (every changed file but an unchanged or a deleted one is scanned). The first commit
  of a repository adds \<^verbatim>\<open>f.py\<close> with the line \<^verbatim>\<open># xxx\<close>: the entry has the staged blob
  on its \<open>a\<close> side and nothing on its \<open>b\<close> side. \<^verbatim>\<open>main\<close> skips it and returns status 0,
  though the scanner reports the marker in these texts.
\<close>

theorem main_skips_added_file:
  "main re_fragment \<lparr>pattern = Some [''# xxx''], files = []\<rparr>
     \<lparr>rev_parse_head = None,
      index_diff = (\<lambda>against paths.
        [\<lparr>a_blob = Some \<lparr>binsha = ''a1'', decoded = Some ''# xxx\<newline>''\<rparr>,
          b_blob = None,
          b_path = Some ''f.py''\<rparr>])\<rparr>
   = Inr (0, [])
   \<and> collect_errors re_fragment ''f.py'' ''# xxx\<newline>'' [] (Some [''# xxx''])
       = Inr [error_message ''# xxx'' ''f.py'' 1]"
  by code_simp


end
